theory Spec2Isabelle
  imports Main "HOL-Library.Multiset" "HOL-Library.Word"
begin

section \<open>Go library functions used by the report generator\<close>

text \<open>
  Go strings are byte sequences; they are modelled as \<open>string\<close> (a list of 8-bit
  characters). A run-time panic is a value of type \<open>go_panic\<close>.
\<close>

datatype go_panic = IndexOutOfRange

text \<open>\<open>strings.Split(s, sep)\<close> for a one-byte separator: the pieces between the
  separators, in order; an input without separator gives the one piece \<open>s\<close>, also
  when \<open>s\<close> is empty.\<close>

fun strings_Split :: "string \<Rightarrow> char \<Rightarrow> string list" where
  "strings_Split [] sep = [[]]"
| "strings_Split (c # cs) sep =
     (if c = sep then [] # strings_Split cs sep
      else (case strings_Split cs sep of
              [] \<Rightarrow> [[c]]
            | w # ws \<Rightarrow> (c # w) # ws))"

text \<open>\<open>strings.Join(elems, sep)\<close>.\<close>

fun strings_Join :: "string list \<Rightarrow> string \<Rightarrow> string" where
  "strings_Join [] sep = []"
| "strings_Join [x] sep = x"
| "strings_Join (x # y # ys) sep = x @ sep @ strings_Join (y # ys) sep"

text \<open>\<open>strings.TrimPrefix(s, prefix)\<close>.\<close>

definition strings_TrimPrefix :: "string \<Rightarrow> string \<Rightarrow> string" where
  "strings_TrimPrefix s p = (if take (length p) s = p then drop (length p) s else s)"

section \<open>Registry links: \<open>makeSherpaLink\<close>\<close>

definition SHERPAURI :: string where
  "SHERPAURI = ''http://www.sherpa.ac.uk/romeo/issn/''"

text \<open>
  The body of the \<open>for _, issn := range issnsSplit\<close> loop, with the slice
  \<open>sherpaLinks\<close> as accumulator. The condition
  \<open>string(issn[4]) == "-" && len(issn) == 9\<close> indexes first: on a non-empty segment
  of fewer than five bytes the index expression panics.
\<close>

fun sherpaLinks_loop :: "string list \<Rightarrow> string list \<Rightarrow> go_panic + string list" where
  "sherpaLinks_loop [] sherpaLinks = Inr sherpaLinks"
| "sherpaLinks_loop (issn # rest) sherpaLinks =
     (if issn \<noteq> [] then
        (if length issn \<le> 4 then Inl IndexOutOfRange
         else if issn ! 4 = CHR ''-'' \<and> length issn = 9 then
           sherpaLinks_loop rest (sherpaLinks @ [SHERPAURI @ issn @ ''/''])
         else if length issn = 8 then
           sherpaLinks_loop rest
             (sherpaLinks @ [SHERPAURI @ (take 4 issn @ ''-'' @ drop 4 (take 8 issn)) @ ''/''])
         else sherpaLinks_loop rest sherpaLinks)
      else sherpaLinks_loop rest sherpaLinks)"

definition makeSherpaLink :: "string \<Rightarrow> go_panic + string" where
  "makeSherpaLink issns =
     (if issns = [] then Inr []
      else (case sherpaLinks_loop (strings_Split issns CHR '','') [] of
              Inl p \<Rightarrow> Inl p
            | Inr sherpaLinks \<Rightarrow> Inr (strings_Join sherpaLinks '','')))"


section \<open>Data model\<close>

text \<open>A decoded JSON value, for the field \<open>ExternalURL interface{}\<close>. Numbers are kept
  as their literal text.\<close>

datatype json_value =
    JNull | JBool bool | JNumber string | JString string
  | JArray "json_value list" | JObject "(string \<times> json_value) list"

text \<open>The two anonymous element structs of \<open>Publication\<close>.\<close>

record IdentifierItem =
  Scheme :: string
  Value :: string

record AttachmentItem =
  OpenAccess :: string
  BlobKey :: string
  ExternalURL :: json_value
  AttachmentType :: string

record Publication =
  Identifier :: "IdentifierItem list"
  ID :: string
  Type :: string
  Attachment :: "AttachmentItem list"

record BestOaLocation =
  Evidence :: string
  HostType :: string
  LocationID :: string
  URL :: string
  URLForLandingPage :: string
  URLForPdf :: string
  Version :: string

record APIResponseBody =
  BestOaLocation :: BestOaLocation
  DataStandard :: "64 word"
  Doi :: string
  DoiURL :: string
  IsOa :: bool
  JournalIsOa :: bool
  JournalIssns :: string
  JournalName :: string
  Publisher :: string
  Title :: string
  Updated :: string
  Year :: "64 word"

record APIResponse =
  HTTPStatus :: string
  Body :: APIResponseBody
  JSONDecodeError :: string
  GETError :: string

record Record =
  Publication :: Publication
  APIResponses :: "APIResponse list"

text \<open>Go's zero values: what \<open>var apiResponse APIResponse\<close> holds.\<close>

definition zero_BestOaLocation :: BestOaLocation where
  "zero_BestOaLocation =
     \<lparr>Evidence = [], HostType = [], LocationID = [], URL = [], URLForLandingPage = [],
      URLForPdf = [], Version = []\<rparr>"

definition zero_APIResponseBody :: APIResponseBody where
  "zero_APIResponseBody =
     \<lparr>BestOaLocation = zero_BestOaLocation, DataStandard = 0, Doi = [], DoiURL = [],
      IsOa = False, JournalIsOa = False, JournalIssns = [], JournalName = [],
      Publisher = [], Title = [], Updated = [], Year = 0\<rparr>"

definition zero_APIResponse :: APIResponse where
  "zero_APIResponse =
     \<lparr>HTTPStatus = [], Body = zero_APIResponseBody, JSONDecodeError = [], GETError = []\<rparr>"

definition OADOIURL :: string where
  "OADOIURL = ''https://api.oadoi.org/v2/''"

definition attachmentTypeToWeightMap :: "string \<rightharpoonup> int" where
  "attachmentTypeToWeightMap =
     map_of [(''missing'', 0), (''other'', 1), (''submittedManuscript'', 2),
             (''acceptedManuscript'', 3), (''finalVersion'', 4)]"

text \<open>Indexing a Go map with a key it does not hold yields the zero value.\<close>

definition weight :: "string \<Rightarrow> int" where
  "weight t = (case attachmentTypeToWeightMap t of None \<Rightarrow> 0 | Some w \<Rightarrow> w)"

section \<open>The enrichment client: \<open>doAPIRequest\<close>\<close>

text \<open>
  The network is a parameter: \<open>http_get url\<close> is what \<open>http.Get(url)\<close> and the JSON
  decoder do for that URL. A transport error carries its message; a response carries
  its status line and the outcome of decoding its body. A failed decode may have
  filled part of the body before it stopped, so it carries that body too.
\<close>

datatype decode_result = DecodeError string APIResponseBody | Decoded APIResponseBody

datatype http_result = GetError string | GetResponse string decode_result

text \<open>The statements of \<open>doAPIRequest\<close> between receiving the ticket and returning.\<close>

definition doAPIRequest_call :: "(string \<Rightarrow> http_result) \<Rightarrow> string \<Rightarrow> string \<Rightarrow> APIResponse" where
  "doAPIRequest_call http_get email doi =
     (let url = OADOIURL @ strings_TrimPrefix doi ''http://dx.doi.org/'' @ ''?email='' @ email
      in case http_get url of
           GetError e \<Rightarrow> zero_APIResponse\<lparr>GETError := e\<rparr>
         | GetResponse status (DecodeError e b) \<Rightarrow>
             zero_APIResponse\<lparr>HTTPStatus := status, Body := b, JSONDecodeError := e\<rparr>
         | GetResponse status (Decoded b) \<Rightarrow>
             zero_APIResponse\<lparr>HTTPStatus := status, Body := b\<rparr>)"

text \<open>
  One call of \<open>doAPIRequest\<close> run on its own, the buffer of \<open>ticketToHTTP\<close> passed
  through: the receive takes the ticket at the front, the deferred send appends one
  when the function returns, whichever \<open>return\<close> is taken. \<open>None\<close>: the receive finds
  the buffer empty and blocks.
\<close>

definition doAPIRequest ::
  "(string \<Rightarrow> http_result) \<Rightarrow> string \<Rightarrow> string \<Rightarrow> bool list \<Rightarrow> (APIResponse \<times> bool list) option" where
  "doAPIRequest http_get email doi ticketToHTTP =
     (case ticketToHTTP of
        [] \<Rightarrow> None
      | ticket # tickets \<Rightarrow> Some (doAPIRequest_call http_get email doi, tickets @ [True]))"

section \<open>One unit of work per line: \<open>processPublication\<close>\<close>

text \<open>The loop over \<open>record.Publication.Identifier\<close>, appending to
  \<open>record.APIResponses\<close>.\<close>

fun identifier_loop ::
  "(string \<Rightarrow> http_result) \<Rightarrow> string \<Rightarrow> IdentifierItem list \<Rightarrow> APIResponse list \<Rightarrow> APIResponse list" where
  "identifier_loop http_get email [] responses = responses"
| "identifier_loop http_get email (identifier # rest) responses =
     (if Scheme identifier = ''doi''
      then identifier_loop http_get email rest
             (responses @ [doAPIRequest_call http_get email (Value identifier)])
      else identifier_loop http_get email rest responses)"



section \<open>The writer: \<open>processOutput\<close>\<close>

type_synonym csv_row = "string list"

definition header :: csv_row where
  "header =
     [''API - Available OA'', ''Artudis - Available OA'', ''Artudis - Best Type OA'',
      ''Artudis - ID'', ''API - Best OA Location URL'', ''API - Best OA Location Version'',
      ''Artudis - Publication Type'', ''API - HTTP Response Status'',
      ''API - JSON Decode Error'', ''API - GET Error'', ''API - DOI'', ''API - Title'']"

definition FormatBool :: "bool \<Rightarrow> string" where
  "FormatBool b = (if b then ''true'' else ''false'')"

text \<open>The loop over \<open>record.Attachment\<close>, on the pair of the two local variables
  \<open>artudisOA\<close> and \<open>highestLevel\<close>.\<close>

fun attachment_loop :: "AttachmentItem list \<Rightarrow> bool \<times> string \<Rightarrow> bool \<times> string" where
  "attachment_loop [] (oa, level) = (oa, level)"
| "attachment_loop (attachment # rest) (oa, level) =
     (if OpenAccess attachment = ''true''
      then attachment_loop rest
             (True, if weight (AttachmentType attachment) > weight level
                    then AttachmentType attachment else level)
      else attachment_loop rest (oa, level))"

definition artudisOA :: "AttachmentItem list \<Rightarrow> bool" where
  "artudisOA attachments = fst (attachment_loop attachments (False, ''missing''))"

definition highestLevel :: "AttachmentItem list \<Rightarrow> string" where
  "highestLevel attachments = snd (attachment_loop attachments (False, ''missing''))"

definition toCSVOutput :: "Record \<Rightarrow> APIResponse \<Rightarrow> csv_row" where
  "toCSVOutput record apiresponse =
     [FormatBool (IsOa (Body apiresponse)),
      FormatBool (artudisOA (Attachment (Publication record))),
      highestLevel (Attachment (Publication record)),
      ID (Publication record),
      URL (BestOaLocation (Body apiresponse)),
      Version (BestOaLocation (Body apiresponse)),
      Type (Publication record),
      HTTPStatus apiresponse,
      JSONDecodeError apiresponse,
      GETError apiresponse,
      Doi (Body apiresponse),
      Title (Body apiresponse)]"

text \<open>
  Standard output is a parameter: \<open>write_fails n\<close> tells whether the call number \<open>n\<close>
  of \<open>w.Write\<close> returns an error (call 0 writes the header, whose error the code
  never reads), \<open>flush_fails\<close> whether \<open>w.Error()\<close> reports one after the flush.

  The inner loop over \<open>record.APIResponses\<close>: the rows accepted for this record, and
  whether the loop ran to its end (\<open>False\<close>: a write failed, the error was logged and
  the function returned).
\<close>

fun write_record :: "(nat \<Rightarrow> bool) \<Rightarrow> Record \<Rightarrow> nat \<Rightarrow> APIResponse list \<Rightarrow> csv_row list \<times> bool" where
  "write_record write_fails record n [] = ([], True)"
| "write_record write_fails record n (apiresponse # rest) =
     (if write_fails n then ([], False)
      else (case write_record write_fails record (Suc n) rest of
              (rows, ok) \<Rightarrow> (toCSVOutput record apiresponse # rows, ok)))"




text \<open>
  The revision with the registry link builds its row in another column order and ends
  it with \<open>makeSherpaLink(apiresponse.JournalIssns)\<close>; a panic there is a panic of
  the writer's goroutine, which ends the process.
\<close>

definition toCSVOutput_sherpa :: "Record \<Rightarrow> APIResponse \<Rightarrow> go_panic + csv_row" where
  "toCSVOutput_sherpa record apiresponse =
     (case makeSherpaLink (JournalIssns (Body apiresponse)) of
        Inl p \<Rightarrow> Inl p
      | Inr link \<Rightarrow>
          Inr [ID (Publication record),
               Type (Publication record),
               FormatBool (artudisOA (Attachment (Publication record))),
               highestLevel (Attachment (Publication record)),
               FormatBool (IsOa (Body apiresponse)),
               Version (BestOaLocation (Body apiresponse)),
               Doi (Body apiresponse),
               URL (BestOaLocation (Body apiresponse)),
               Title (Body apiresponse),
               HTTPStatus apiresponse,
               JSONDecodeError apiresponse,
               GETError apiresponse,
               link])"

section \<open>Reading the file: the line scanner of \<open>processFile\<close>\<close>








section \<open>One file: the units of work and the writer together\<close>






section \<open>The admission gate: the units of work sharing \<open>ticketToHTTP\<close>\<close>

text \<open>
  Where a unit of work stands relative to \<open>doAPIRequest\<close>: outside any call; inside,
  the deferred send registered, blocked on the receive \<open>\<leftarrow>ticketToHTTP\<close>; holding a
  ticket, before \<open>http.Get\<close>; past one of the three \<open>return\<close> statements with the
  result, the deferred send \<open>ticketToHTTP \<leftarrow> true\<close> still to run.
\<close>

datatype call_pc = Outside | Waiting string | Holding string | Returning APIResponse

record unit_of_work =
  pc :: call_pc
  todo :: "string list"
  responses :: "APIResponse list"

record gate_state =
  ticketToHTTP :: "bool list"
  units :: "unit_of_work list"

definition doi_values :: "Publication \<Rightarrow> string list" where
  "doi_values publication =
     map Value (filter (\<lambda>identifier. Scheme identifier = ''doi'') (Identifier publication))"

text \<open>\<open>processFile\<close> fills the channel of capacity \<open>httplimit\<close> with that many tickets
  and launches one unit per line; a unit whose line parses has the DOI values of
  its record to look up, in order. The capacity is a natural number: with a negative
  \<open>httplimit\<close> the call \<open>make(chan bool, *httplimit)\<close> panics before any unit is
  launched.\<close>

definition gate_init :: "nat \<Rightarrow> Publication list \<Rightarrow> gate_state" where
  "gate_init httplimit publications =
     \<lparr>ticketToHTTP = replicate httplimit True,
      units = map (\<lambda>publication. \<lparr>pc = Outside, todo = doi_values publication, responses = []\<rparr>)
                publications\<rparr>"

definition holds_ticket :: "unit_of_work \<Rightarrow> bool" where
  "holds_ticket u = (case pc u of Holding doi \<Rightarrow> True | Returning r \<Rightarrow> True
                     | Outside \<Rightarrow> False | Waiting doi \<Rightarrow> False)"

definition in_flight :: "gate_state \<Rightarrow> nat" where
  "in_flight s = length (filter holds_ticket (units s))"

text \<open>
  One step of one unit, the units interleaved in any order. A receive needs a ticket
  in the buffer, a send needs room in it; \<open>request\<close> covers the three exits of
  \<open>doAPIRequest\<close> (transport error, decode error, success), which all lead to the
  deferred send.
\<close>

inductive gate_step ::
  "nat \<Rightarrow> (string \<Rightarrow> http_result) \<Rightarrow> string \<Rightarrow> gate_state \<Rightarrow> gate_state \<Rightarrow> bool"
  for httplimit :: nat and http_get :: "string \<Rightarrow> http_result" and email :: string where
  call:
    "i < length (units s) \<Longrightarrow> pc (units s ! i) = Outside \<Longrightarrow> todo (units s ! i) = doi # rest \<Longrightarrow>
     gate_step httplimit http_get email s
       (s\<lparr>units := (units s)[i := (units s ! i)\<lparr>pc := Waiting doi, todo := rest\<rparr>]\<rparr>)"
| receive:
    "i < length (units s) \<Longrightarrow> pc (units s ! i) = Waiting doi \<Longrightarrow> ticketToHTTP s = ticket # tickets \<Longrightarrow>
     gate_step httplimit http_get email s
       (s\<lparr>ticketToHTTP := tickets, units := (units s)[i := (units s ! i)\<lparr>pc := Holding doi\<rparr>]\<rparr>)"
| request:
    "i < length (units s) \<Longrightarrow> pc (units s ! i) = Holding doi \<Longrightarrow>
     gate_step httplimit http_get email s
       (s\<lparr>units := (units s)[i := (units s ! i)\<lparr>pc := Returning (doAPIRequest_call http_get email doi)\<rparr>]\<rparr>)"
| send:
    "i < length (units s) \<Longrightarrow> pc (units s ! i) = Returning r \<Longrightarrow> length (ticketToHTTP s) < httplimit \<Longrightarrow>
     gate_step httplimit http_get email s
       (s\<lparr>ticketToHTTP := ticketToHTTP s @ [True],
          units := (units s)[i := (units s ! i)\<lparr>pc := Outside, responses := responses (units s ! i) @ [r]\<rparr>]\<rparr>)"

inductive gate_reachable ::
  "nat \<Rightarrow> (string \<Rightarrow> http_result) \<Rightarrow> string \<Rightarrow> Publication list \<Rightarrow> gate_state \<Rightarrow> bool"
  for httplimit :: nat and http_get :: "string \<Rightarrow> http_result" and email :: string
    and publications :: "Publication list" where
  start: "gate_reachable httplimit http_get email publications (gate_init httplimit publications)"
| step: "gate_reachable httplimit http_get email publications s \<Longrightarrow>
         gate_step httplimit http_get email s s' \<Longrightarrow>
         gate_reachable httplimit http_get email publications s'"

definition all_finished :: "gate_state \<Rightarrow> bool" where
  "all_finished s = list_all (\<lambda>u. pc u = Outside \<and> todo u = []) (units s)"

section \<open>The hand-off on \<open>output\<close>: units, writer and \<open>processFile\<close> together\<close>

text \<open>
  \<open>output\<close> is unbuffered: a unit's send \<open>output \<leftarrow> record\<close> completes only together
  with a receive of the writer's \<open>range\<close> loop. The state keeps the records whose
  units have not completed their send, whether the writer is still in its loop (and
  how many calls of \<open>w.Write\<close> it has made, with the rows accepted), and where
  \<open>processFile\<close> stands: in \<open>waitgroupLines.Wait()\<close>, in \<open>waitgroupOutput.Wait()\<close>
  after closing the channel, or returned.
\<close>

datatype main_pc = WaitLines | WaitOutput | FileDone

record output_state =
  unsent :: "Record list"
  writer_running :: bool
  writes :: nat
  written :: "csv_row list"
  main :: main_pc

definition output_init :: "(nat \<Rightarrow> bool) \<Rightarrow> Record list \<Rightarrow> output_state" where
  "output_init write_fails records =
     \<lparr>unsent = records, writer_running = True, writes = 1,
      written = (if write_fails 0 then [] else [header]), main = WaitLines\<rparr>"

inductive output_step :: "(nat \<Rightarrow> bool) \<Rightarrow> output_state \<Rightarrow> output_state \<Rightarrow> bool"
  for write_fails :: "nat \<Rightarrow> bool" where
  handoff:
    "i < length (unsent s) \<Longrightarrow> writer_running s \<Longrightarrow>
     write_record write_fails (unsent s ! i) (writes s) (APIResponses (unsent s ! i)) = (rows, ok) \<Longrightarrow>
     output_step write_fails s
       (s\<lparr>unsent := take i (unsent s) @ drop (Suc i) (unsent s),
          writer_running := ok,
          writes := writes s + length rows + (if ok then 0 else 1),
          written := written s @ rows\<rparr>)"
| close_output:
    "main s = WaitLines \<Longrightarrow> unsent s = [] \<Longrightarrow>
     output_step write_fails s (s\<lparr>main := WaitOutput\<rparr>)"
| writer_done:
    "writer_running s \<Longrightarrow> main s = WaitOutput \<Longrightarrow>
     output_step write_fails s (s\<lparr>writer_running := False\<rparr>)"
| file_done:
    "main s = WaitOutput \<Longrightarrow> \<not> writer_running s \<Longrightarrow>
     output_step write_fails s (s\<lparr>main := FileDone\<rparr>)"

inductive output_reachable :: "(nat \<Rightarrow> bool) \<Rightarrow> Record list \<Rightarrow> output_state \<Rightarrow> bool"
  for write_fails :: "nat \<Rightarrow> bool" and records :: "Record list" where
  start: "output_reachable write_fails records (output_init write_fails records)"
| step: "output_reachable write_fails records s \<Longrightarrow> output_step write_fails s s' \<Longrightarrow>
         output_reachable write_fails records s'"

section \<open>Auxiliary notions for the proofs\<close>

text \<open>A registry link as \<open>makeSherpaLink\<close> builds it: the base, nine bytes without
  comma, a slash.\<close>

definition is_link :: "string \<Rightarrow> bool" where
  "is_link l = (\<exists>x. l = SHERPAURI @ x @ ''/'' \<and> length x = 9 \<and> CHR '','' \<notin> set x)"


definition is_oa :: "AttachmentItem \<Rightarrow> bool" where
  "is_oa a = (OpenAccess a = ''true'')"

text \<open>The results a unit of work has or is about to have: those appended so far, the
  one of the call it is in, and those of the DOI values it has yet to look up.\<close>

definition results_in_order ::
  "(string \<Rightarrow> http_result) \<Rightarrow> string \<Rightarrow> unit_of_work \<Rightarrow> APIResponse list" where
  "results_in_order http_get email u =
     responses u
     @ (case pc u of
          Outside \<Rightarrow> []
        | Waiting doi \<Rightarrow> [doAPIRequest_call http_get email doi]
        | Holding doi \<Rightarrow> [doAPIRequest_call http_get email doi]
        | Returning r \<Rightarrow> [r])
     @ map (doAPIRequest_call http_get email) (todo u)"

section \<open>Properties of the registry links\<close>

lemma strings_Split_not_Nil: "strings_Split s sep \<noteq> []"
  by (induction s) (auto split: list.splits)

lemma strings_Split_no_sep: "w \<in> set (strings_Split s sep) \<Longrightarrow> sep \<notin> set w"
  by (induction s arbitrary: w) (auto split: list.splits if_splits)

lemma strings_Split_sep_free: "sep \<notin> set x \<Longrightarrow> strings_Split x sep = [x]"
  by (induction x) auto

lemma strings_Split_append_sep:
  "sep \<notin> set x \<Longrightarrow> strings_Split (x @ sep # rest) sep = x # strings_Split rest sep"
  by (induction x) (auto split: list.splits)

lemma strings_Split_Join:
  "xs \<noteq> [] \<Longrightarrow> \<forall>x\<in>set xs. sep \<notin> set x \<Longrightarrow> strings_Split (strings_Join xs [sep]) sep = xs"
proof (induction xs "[sep]" rule: strings_Join.induct)
  case 1
  then show ?case by simp
next
  case (2 x)
  then show ?case by (simp add: strings_Split_sep_free)
next
  case (3 x y ys)
  then show ?case by (simp add: strings_Split_append_sep)
qed

lemma SHERPAURI_no_comma: "CHR '','' \<notin> set SHERPAURI"
  by (simp add: SHERPAURI_def)

lemma SHERPAURI_length: "length SHERPAURI = 35"
  by (simp add: SHERPAURI_def)

lemma SHERPAURI_4: "(SHERPAURI @ r) ! 4 = CHR '':''"
  by (simp add: SHERPAURI_def)

lemma is_link_no_comma: "is_link l \<Longrightarrow> CHR '','' \<notin> set l"
  using SHERPAURI_no_comma by (auto simp: is_link_def)

lemma is_link_skipped:
  assumes "is_link l"
  shows "l \<noteq> [] \<and> \<not> length l \<le> 4 \<and> l ! 4 \<noteq> CHR ''-'' \<and> length l \<noteq> 8"
proof -
  from assms obtain x where l: "l = SHERPAURI @ x @ ''/''" and "length x = 9"
    by (auto simp: is_link_def)
  then have "length l = 45" by (simp add: SHERPAURI_length)
  moreover have "l ! 4 = CHR '':''" unfolding l by (rule SHERPAURI_4)
  ultimately show ?thesis by auto
qed

lemma sherpaLinks_loop_links:
  "\<forall>l\<in>set ls. is_link l \<Longrightarrow> sherpaLinks_loop ls acc = Inr acc"
proof (induction ls)
  case Nil
  then show ?case by simp
next
  case (Cons l ls)
  then have "is_link l" by simp
  from is_link_skipped [OF this] Cons show ?case by simp
qed

lemma is_link_intro: "length x = 9 \<Longrightarrow> CHR '','' \<notin> set x \<Longrightarrow> is_link (SHERPAURI @ x @ ''/'')"
  unfolding is_link_def by blast

lemma sherpaLinks_loop_is_link:
  "sherpaLinks_loop segs acc = Inr links \<Longrightarrow> \<forall>s\<in>set segs. CHR '','' \<notin> set s
     \<Longrightarrow> \<forall>l\<in>set acc. is_link l \<Longrightarrow> \<forall>l\<in>set links. is_link l"
proof (induction segs arbitrary: acc)
  case Nil
  then show ?case by simp
next
  case (Cons issn rest)
  from Cons.prems have nc: "CHR '','' \<notin> set issn" and rest: "\<forall>s\<in>set rest. CHR '','' \<notin> set s"
    by simp_all
  consider (skip) "sherpaLinks_loop rest acc = Inr links"
    | (nine) "length issn = 9" "sherpaLinks_loop rest (acc @ [SHERPAURI @ issn @ ''/'']) = Inr links"
    | (eight) "length issn = 8"
        "sherpaLinks_loop rest (acc @ [SHERPAURI @ (take 4 issn @ ''-'' @ drop 4 (take 8 issn)) @ ''/'']) = Inr links"
    using Cons.prems(1) by (simp split: if_splits)
  then show ?case
  proof cases
    case skip
    then show ?thesis using Cons.IH rest Cons.prems(3) by blast
  next
    case nine
    have "is_link (SHERPAURI @ issn @ ''/'')"
      using nine(1) nc by (rule is_link_intro)
    then have "\<forall>l\<in>set (acc @ [SHERPAURI @ issn @ ''/'']). is_link l"
      using Cons.prems(3) by simp
    then show ?thesis using Cons.IH [OF nine(2) rest] by blast
  next
    case eight
    have "CHR '','' \<notin> set (take 4 issn @ ''-'' @ drop 4 (take 8 issn))"
      using nc by (auto dest: in_set_takeD in_set_dropD)
    moreover have "length (take 4 issn @ ''-'' @ drop 4 (take 8 issn)) = 9"
      using eight(1) by simp
    ultimately have "is_link (SHERPAURI @ (take 4 issn @ ''-'' @ drop 4 (take 8 issn)) @ ''/'')"
      by (rule is_link_intro [rotated])
    then have "\<forall>l\<in>set (acc @ [SHERPAURI @ (take 4 issn @ ''-'' @ drop 4 (take 8 issn)) @ ''/'']). is_link l"
      using Cons.prems(3) by simp
    then show ?thesis using Cons.IH [OF eight(2) rest] by blast
  qed
qed


text \<open>
  C5. The four equations of the test table: the empty input gives the empty link, a
  hyphenated ISSN is put behind the base with a closing slash, the eight-byte form
  gets its hyphen after the fourth byte, and a comma-joined input gives the
  comma-joined links of its segments.
\<close>

theorem makeSherpaLink_test_table:
  "makeSherpaLink [] = Inr []
   \<and> makeSherpaLink ''1234-5678'' = Inr (SHERPAURI @ ''1234-5678/'')
   \<and> makeSherpaLink ''12345678'' = Inr (SHERPAURI @ ''1234-5678/'')
   \<and> makeSherpaLink ''12345678,abcd-efgh''
       = Inr (SHERPAURI @ ''1234-5678/'' @ '','' @ SHERPAURI @ ''abcd-efgh/'')"
  by (simp add: makeSherpaLink_def)

text \<open>
  C6, as stated, fails: the link of \<open>1234-5678\<close> is not a fixed point, since a link
  is 45 bytes long with a colon at index 4, so the second application drops it.
\<close>

theorem makeSherpaLink_not_idempotent:
  "makeSherpaLink ''1234-5678'' = Inr (SHERPAURI @ ''1234-5678/'')
   \<and> makeSherpaLink (SHERPAURI @ ''1234-5678/'') \<noteq> makeSherpaLink ''1234-5678''"
  by (simp add: makeSherpaLink_def SHERPAURI_def)

text \<open>
  C6, amended. Whenever \<open>makeSherpaLink\<close> returns a link string, applying it to that
  string returns the empty string; so the second application agrees with the first
  exactly when the first result is empty.
\<close>

theorem makeSherpaLink_twice_empty:
  assumes "makeSherpaLink s = Inr l"
  shows "makeSherpaLink l = Inr [] \<and> (makeSherpaLink l = makeSherpaLink s \<longleftrightarrow> l = [])"
proof -
  have "makeSherpaLink l = Inr []"
  proof (cases "l = []")
    case True
    then show ?thesis by (simp add: makeSherpaLink_def)
  next
    case False
    from assms False obtain links where
      loop: "sherpaLinks_loop (strings_Split s CHR '','') [] = Inr links"
      and l: "l = strings_Join links '',''"
      by (auto simp: makeSherpaLink_def split: if_splits sum.splits)
    from False l have ne: "links \<noteq> []" by auto
    have links: "\<forall>x\<in>set links. is_link x"
      using sherpaLinks_loop_is_link [OF loop] strings_Split_no_sep by fastforce
    then have "\<forall>x\<in>set links. CHR '','' \<notin> set x"
      using is_link_no_comma by blast
    with ne have "strings_Split l CHR '','' = links"
      unfolding l by (rule strings_Split_Join)
    with links False show ?thesis
      by (simp add: makeSherpaLink_def sherpaLinks_loop_links)
  qed
  with assms show ?thesis by auto
qed

theorem makeSherpaLink_twice_empty_witness:
  "makeSherpaLink ''12345678'' = Inr (SHERPAURI @ ''1234-5678/'')
   \<and> makeSherpaLink (SHERPAURI @ ''1234-5678/'') = Inr []"
proof -
  have h: "makeSherpaLink ''12345678'' = Inr (SHERPAURI @ ''1234-5678/'')"
    by (simp add: makeSherpaLink_def)
  from makeSherpaLink_twice_empty [OF h] h show ?thesis by simp
qed

text \<open>
  C10. \<open>makeSherpaLink\<close> is not total: on a non-empty segment of fewer than five
  bytes the index \<open>issn[4]\<close> is evaluated, before the length is compared with 9, and
  the function panics; here on the input \<open>123\<close>, on a good ISSN followed by a short
  segment, and in the writer's row for a response whose journal ISSN list is \<open>123\<close>.
\<close>

theorem makeSherpaLink_short_segment_panics:
  "makeSherpaLink ''123'' = Inl IndexOutOfRange
   \<and> makeSherpaLink ''1234-5678,123'' = Inl IndexOutOfRange
   \<and> toCSVOutput_sherpa
         \<lparr>Publication = \<lparr>Identifier = [\<lparr>Scheme = ''doi'', Value = ''10.1000/182''\<rparr>], ID = ''7'',
                          Type = ''article'', Attachment = []\<rparr>,
          APIResponses = []\<rparr>
         (zero_APIResponse\<lparr>HTTPStatus := ''200 OK'',
            Body := zero_APIResponseBody\<lparr>JournalIssns := ''123''\<rparr>\<rparr>)
       = Inl IndexOutOfRange"
  by (simp add: makeSherpaLink_def toCSVOutput_sherpa_def zero_APIResponse_def
      zero_APIResponseBody_def)

section \<open>Properties of the local open-access fields\<close>

lemma weight_nonneg: "0 \<le> weight t"
  by (simp add: weight_def attachmentTypeToWeightMap_def)

lemma weight_missing: "weight ''missing'' = 0"
  by (simp add: weight_def attachmentTypeToWeightMap_def)

lemma attachment_loop_fst:
  "fst (attachment_loop atts (oa, level)) = (oa \<or> (\<exists>a\<in>set atts. OpenAccess a = ''true''))"
  by (induction atts arbitrary: oa level) auto

lemma attachment_loop_snd:
  "(snd (attachment_loop atts (oa, level)) = level
      \<and> (\<forall>b\<in>set (filter is_oa atts). weight (AttachmentType b) \<le> weight level))
   \<or> (\<exists>pre a post. filter is_oa atts = pre @ a # post
         \<and> snd (attachment_loop atts (oa, level)) = AttachmentType a
         \<and> weight level < weight (AttachmentType a)
         \<and> (\<forall>b\<in>set pre. weight (AttachmentType b) < weight (AttachmentType a))
         \<and> (\<forall>b\<in>set post. weight (AttachmentType b) \<le> weight (AttachmentType a)))"
  (is "?keep atts oa level \<or> ?take atts oa level")
proof (induction atts arbitrary: oa level)
  case Nil
  then show ?case by simp
next
  case (Cons x atts)
  show ?case
  proof (cases "is_oa x")
    case False
    then have "attachment_loop (x # atts) (oa, level) = attachment_loop atts (oa, level)"
      by (simp add: is_oa_def)
    with False Cons.IH [of oa level] show ?thesis by simp
  next
    case True
    show ?thesis
    proof (cases "weight level < weight (AttachmentType x)")
      case up: True
      have eq: "attachment_loop (x # atts) (oa, level) = attachment_loop atts (True, AttachmentType x)"
        using True up by (simp add: is_oa_def)
      from Cons.IH [of True "AttachmentType x"] show ?thesis
      proof
        assume k: "?keep atts True (AttachmentType x)"
        have "filter is_oa (x # atts) = [] @ x # filter is_oa atts" using True by simp
        with k eq up have "?take (x # atts) oa level" by (metis empty_iff list.set(1))
        then show ?thesis ..
      next
        assume "?take atts True (AttachmentType x)"
        then obtain pre a post where f: "filter is_oa atts = pre @ a # post"
          and r: "snd (attachment_loop atts (True, AttachmentType x)) = AttachmentType a"
          and w: "weight (AttachmentType x) < weight (AttachmentType a)"
          and p: "\<forall>b\<in>set pre. weight (AttachmentType b) < weight (AttachmentType a)"
          and q: "\<forall>b\<in>set post. weight (AttachmentType b) \<le> weight (AttachmentType a)"
          by blast
        have "filter is_oa (x # atts) = (x # pre) @ a # post" using True f by simp
        moreover have "\<forall>b\<in>set (x # pre). weight (AttachmentType b) < weight (AttachmentType a)"
          using p w by simp
        moreover have "weight level < weight (AttachmentType a)" using up w by simp
        ultimately have "?take (x # atts) oa level" using eq r q by metis
        then show ?thesis ..
      qed
    next
      case down: False
      have eq: "attachment_loop (x # atts) (oa, level) = attachment_loop atts (True, level)"
        using True down by (simp add: is_oa_def)
      from Cons.IH [of True level] show ?thesis
      proof
        assume "?keep atts True level"
        with eq True down have "?keep (x # atts) oa level" by simp
        then show ?thesis ..
      next
        assume "?take atts True level"
        then obtain pre a post where f: "filter is_oa atts = pre @ a # post"
          and r: "snd (attachment_loop atts (True, level)) = AttachmentType a"
          and w: "weight level < weight (AttachmentType a)"
          and p: "\<forall>b\<in>set pre. weight (AttachmentType b) < weight (AttachmentType a)"
          and q: "\<forall>b\<in>set post. weight (AttachmentType b) \<le> weight (AttachmentType a)"
          by blast
        have "filter is_oa (x # atts) = (x # pre) @ a # post" using True f by simp
        moreover have "\<forall>b\<in>set (x # pre). weight (AttachmentType b) < weight (AttachmentType a)"
          using p w down by simp
        ultimately have "?take (x # atts) oa level" using eq r q w by metis
        then show ?thesis ..
      qed
    qed
  qed
qed

text \<open>
  C4, as stated, fails: an open-access attachment whose type is not on the scale (here
  an absent type, and a type the scale does not list) has rank 0 like \<open>missing\<close>, so
  the label stays \<open>missing\<close> although the record is flagged open access.
\<close>

theorem highestLevel_missing_despite_open_access:
  "artudisOA [\<lparr>OpenAccess = ''true'', BlobKey = ''k'', ExternalURL = JNull, AttachmentType = []\<rparr>]
   \<and> highestLevel [\<lparr>OpenAccess = ''true'', BlobKey = ''k'', ExternalURL = JNull, AttachmentType = []\<rparr>]
       = ''missing''
   \<and> highestLevel [\<lparr>OpenAccess = ''true'', BlobKey = ''k'', ExternalURL = JNull,
                     AttachmentType = ''publishedVersion''\<rparr>] = ''missing''"
  by (simp add: artudisOA_def highestLevel_def weight_def attachmentTypeToWeightMap_def)

text \<open>
  C4, amended. \<open>artudisOA\<close> is true exactly when some attachment has the marker
  \<open>true\<close>. \<open>highestLevel\<close> is \<open>missing\<close> exactly when every open-access attachment
  has rank 0 (its type is \<open>missing\<close> or not on the scale); otherwise it is the type of
  an open-access attachment whose rank is strictly above that of every open-access
  attachment before it and at least that of every one after it: the first of highest
  rank.
\<close>

theorem local_open_access_fields:
  "(artudisOA atts \<longleftrightarrow> (\<exists>a\<in>set atts. OpenAccess a = ''true''))
   \<and> (highestLevel atts = ''missing''
        \<longleftrightarrow> (\<forall>a\<in>set atts. OpenAccess a = ''true'' \<longrightarrow> weight (AttachmentType a) = 0))
   \<and> (highestLevel atts \<noteq> ''missing'' \<longrightarrow>
        (\<exists>pre a post. filter is_oa atts = pre @ a # post
           \<and> highestLevel atts = AttachmentType a
           \<and> (\<forall>b\<in>set pre. weight (AttachmentType b) < weight (AttachmentType a))
           \<and> (\<forall>b\<in>set post. weight (AttachmentType b) \<le> weight (AttachmentType a))))"
proof -
  have oa: "artudisOA atts \<longleftrightarrow> (\<exists>a\<in>set atts. OpenAccess a = ''true'')"
    by (simp add: artudisOA_def attachment_loop_fst)
  let ?take = "\<exists>pre a post. filter is_oa atts = pre @ a # post
           \<and> highestLevel atts = AttachmentType a
           \<and> 0 < weight (AttachmentType a)
           \<and> (\<forall>b\<in>set pre. weight (AttachmentType b) < weight (AttachmentType a))
           \<and> (\<forall>b\<in>set post. weight (AttachmentType b) \<le> weight (AttachmentType a))"
  let ?zero = "\<forall>a\<in>set atts. OpenAccess a = ''true'' \<longrightarrow> weight (AttachmentType a) = 0"
  from attachment_loop_snd [of atts False "''missing''"]
  have cases: "(highestLevel atts = ''missing'' \<and> ?zero) \<or> ?take"
  proof
    assume k: "snd (attachment_loop atts (False, ''missing'')) = ''missing''
      \<and> (\<forall>b\<in>set (filter is_oa atts). weight (AttachmentType b) \<le> weight ''missing'')"
    then have "\<forall>a\<in>set atts. OpenAccess a = ''true'' \<longrightarrow> weight (AttachmentType a) \<le> 0"
      by (simp add: is_oa_def weight_missing)
    then have ?zero using weight_nonneg by (simp add: order_antisym)
    with k show ?thesis by (simp add: highestLevel_def)
  next
    assume "\<exists>pre a post. filter is_oa atts = pre @ a # post
         \<and> snd (attachment_loop atts (False, ''missing'')) = AttachmentType a
         \<and> weight ''missing'' < weight (AttachmentType a)
         \<and> (\<forall>b\<in>set pre. weight (AttachmentType b) < weight (AttachmentType a))
         \<and> (\<forall>b\<in>set post. weight (AttachmentType b) \<le> weight (AttachmentType a))"
    then have ?take by (simp add: highestLevel_def weight_missing)
    then show ?thesis ..
  qed
  have take_not_missing: "highestLevel atts \<noteq> ''missing''" if ?take
    using that weight_missing by force
  have take_not_zero: "\<not> ?zero" if ?take
  proof -
    from that obtain pre a post where f: "filter is_oa atts = pre @ a # post"
      and w: "0 < weight (AttachmentType a)" by blast
    from f have "a \<in> set (filter is_oa atts)" by simp
    then have "a \<in> set atts" "OpenAccess a = ''true''" by (simp_all add: is_oa_def)
    with w show ?thesis by force
  qed
  have missing: "highestLevel atts = ''missing'' \<longleftrightarrow> ?zero"
    using cases take_not_missing take_not_zero by blast
  have level: "highestLevel atts \<noteq> ''missing'' \<longrightarrow>
        (\<exists>pre a post. filter is_oa atts = pre @ a # post
           \<and> highestLevel atts = AttachmentType a
           \<and> (\<forall>b\<in>set pre. weight (AttachmentType b) < weight (AttachmentType a))
           \<and> (\<forall>b\<in>set post. weight (AttachmentType b) \<le> weight (AttachmentType a)))"
    using cases by blast
  from oa missing level show ?thesis by blast
qed

theorem local_open_access_fields_witness:
  "artudisOA
     [\<lparr>OpenAccess = ''true'', BlobKey = ''a'', ExternalURL = JNull, AttachmentType = ''other''\<rparr>,
      \<lparr>OpenAccess = ''false'', BlobKey = ''b'', ExternalURL = JNull, AttachmentType = ''finalVersion''\<rparr>,
      \<lparr>OpenAccess = ''true'', BlobKey = ''c'', ExternalURL = JNull, AttachmentType = ''acceptedManuscript''\<rparr>]
   \<and> highestLevel
     [\<lparr>OpenAccess = ''true'', BlobKey = ''a'', ExternalURL = JNull, AttachmentType = ''other''\<rparr>,
      \<lparr>OpenAccess = ''false'', BlobKey = ''b'', ExternalURL = JNull, AttachmentType = ''finalVersion''\<rparr>,
      \<lparr>OpenAccess = ''true'', BlobKey = ''c'', ExternalURL = JNull, AttachmentType = ''acceptedManuscript''\<rparr>]
     = ''acceptedManuscript''
   \<and> (\<exists>pre a post.
        filter is_oa
          [\<lparr>OpenAccess = ''true'', BlobKey = ''a'', ExternalURL = JNull, AttachmentType = ''other''\<rparr>,
           \<lparr>OpenAccess = ''false'', BlobKey = ''b'', ExternalURL = JNull, AttachmentType = ''finalVersion''\<rparr>,
           \<lparr>OpenAccess = ''true'', BlobKey = ''c'', ExternalURL = JNull, AttachmentType = ''acceptedManuscript''\<rparr>]
          = pre @ a # post
        \<and> AttachmentType a = ''acceptedManuscript''
        \<and> (\<forall>b\<in>set pre. weight (AttachmentType b) < weight (AttachmentType a))
        \<and> (\<forall>b\<in>set post. weight (AttachmentType b) \<le> weight (AttachmentType a)))"
  (is "artudisOA ?atts \<and> _ \<and> _")
proof -
  have level: "highestLevel ?atts = ''acceptedManuscript''"
    by (simp add: highestLevel_def weight_def attachmentTypeToWeightMap_def)
  then have ne: "highestLevel ?atts \<noteq> ''missing''" by simp
  have some: "\<exists>a\<in>set ?atts. OpenAccess a = ''true''" by simp
  from local_open_access_fields [of ?atts] some ne level show ?thesis by metis
qed

section \<open>Properties of the enrichment client\<close>

text \<open>
  C3. For every result that \<open>doAPIRequest\<close> returns: the transport error and the
  decode error are not both set; a set transport error comes with an empty
  status text and the zero body; a set decode error comes from a response whose status
  text is recorded; and a response whose body decodes gives both error fields empty, the
  status text and the body.
\<close>

theorem doAPIRequest_error_fields:
  assumes "doAPIRequest http_get email doi tickets = Some (r, tickets')"
  shows "(GETError r = [] \<or> JSONDecodeError r = [])
    \<and> (GETError r \<noteq> [] \<longrightarrow> HTTPStatus r = [] \<and> Body r = zero_APIResponseBody)
    \<and> (JSONDecodeError r \<noteq> [] \<longrightarrow>
         (\<exists>e b. http_get (OADOIURL @ strings_TrimPrefix doi ''http://dx.doi.org/'' @ ''?email='' @ email)
                  = GetResponse (HTTPStatus r) (DecodeError e b)))
    \<and> (\<forall>status b.
         http_get (OADOIURL @ strings_TrimPrefix doi ''http://dx.doi.org/'' @ ''?email='' @ email)
           = GetResponse status (Decoded b) \<longrightarrow>
         GETError r = [] \<and> JSONDecodeError r = [] \<and> HTTPStatus r = status \<and> Body r = b)"
proof -
  from assms have r: "r = doAPIRequest_call http_get email doi"
    by (auto simp: doAPIRequest_def split: list.splits)
  show ?thesis
    unfolding r doAPIRequest_call_def Let_def
    by (simp add: zero_APIResponse_def split: http_result.split decode_result.split)
qed

theorem doAPIRequest_error_fields_witness:
  "doAPIRequest (\<lambda>url. GetResponse ''200 OK'' (DecodeError ''unexpected EOF'' zero_APIResponseBody))
     ''a@b.org'' ''10.1000/182'' [True]
     = Some (\<lparr>HTTPStatus = ''200 OK'', Body = zero_APIResponseBody,
              JSONDecodeError = ''unexpected EOF'', GETError = []\<rparr>, [True])
   \<and> doAPIRequest (\<lambda>url. GetError ''dial tcp: timeout'') ''a@b.org'' ''10.1000/182'' [True]
     = Some (\<lparr>HTTPStatus = [], Body = zero_APIResponseBody,
              JSONDecodeError = [], GETError = ''dial tcp: timeout''\<rparr>, [True])
   \<and> Body \<lparr>HTTPStatus = [], Body = zero_APIResponseBody,
              JSONDecodeError = [], GETError = ''dial tcp: timeout''\<rparr> = zero_APIResponseBody"
proof -
  have h1: "doAPIRequest (\<lambda>url. GetResponse ''200 OK'' (DecodeError ''unexpected EOF'' zero_APIResponseBody))
     ''a@b.org'' ''10.1000/182'' [True]
     = Some (\<lparr>HTTPStatus = ''200 OK'', Body = zero_APIResponseBody,
              JSONDecodeError = ''unexpected EOF'', GETError = []\<rparr>, [True])"
    by (simp add: doAPIRequest_def doAPIRequest_call_def zero_APIResponse_def)
  have h2: "doAPIRequest (\<lambda>url. GetError ''dial tcp: timeout'') ''a@b.org'' ''10.1000/182'' [True]
     = Some (\<lparr>HTTPStatus = [], Body = zero_APIResponseBody,
              JSONDecodeError = [], GETError = ''dial tcp: timeout''\<rparr>, [True])"
    by (simp add: doAPIRequest_def doAPIRequest_call_def zero_APIResponse_def)
  from doAPIRequest_error_fields [OF h2] have "Body \<lparr>HTTPStatus = [], Body = zero_APIResponseBody,
              JSONDecodeError = [], GETError = ''dial tcp: timeout''\<rparr> = zero_APIResponseBody"
    by simp
  with h1 h2 show ?thesis by blast
qed

section \<open>Properties of the units of work and the writer\<close>

lemma identifier_loop_map:
  "identifier_loop http_get email identifiers acc
     = acc @ map (\<lambda>identifier. doAPIRequest_call http_get email (Value identifier))
               (filter (\<lambda>identifier. Scheme identifier = ''doi'') identifiers)"
  by (induction identifiers arbitrary: acc) auto



lemma write_record_prefix:
  "write_record write_fails record n rs = (rows, ok) \<Longrightarrow>
   rows = map (toCSVOutput record) (take (length rows) rs) \<and> length rows \<le> length rs
   \<and> (ok \<longleftrightarrow> length rows = length rs)"
proof (induction rs arbitrary: n rows ok)
  case Nil
  then show ?case by auto
next
  case (Cons r rs)
  show ?case
  proof (cases "write_fails n")
    case True
    with Cons.prems show ?thesis by auto
  next
    case False
    obtain rows' ok' where w: "write_record write_fails record (Suc n) rs = (rows', ok')"
      by (cases "write_record write_fails record (Suc n) rs")
    with False Cons.prems have "rows = toCSVOutput record r # rows'" "ok = ok'" by auto
    with Cons.IH [OF w] show ?thesis by auto
  qed
qed





section \<open>Properties of the line scanner\<close>







section \<open>Properties of the admission gate\<close>

lemma filter_update_count:
  "i < length us \<Longrightarrow>
   length (filter P (us[i := u])) + (if P (us ! i) then 1 else 0)
     = length (filter P us) + (if P u then 1 else 0)"
proof (induction us arbitrary: i)
  case Nil
  then show ?case by simp
next
  case (Cons x us)
  show ?case
  proof (cases i)
    case 0
    then show ?thesis by simp
  next
    case (Suc j)
    with Cons.prems have "j < length us" by simp
    from Cons.IH [OF this] Suc show ?thesis by simp
  qed
qed

lemma in_flight_init: "in_flight (gate_init n publications) = 0"
  by (simp add: in_flight_def gate_init_def holds_ticket_def filter_empty_conv)

lemma gate_step_conserves:
  assumes "gate_step httplimit http_get email s s'"
  shows "length (ticketToHTTP s') + in_flight s' = length (ticketToHTTP s) + in_flight s"
  using assms
proof cases
  case (call i doi rest)
  from filter_update_count [OF call(2), of holds_ticket
      "(units s ! i)\<lparr>pc := Waiting doi, todo := rest\<rparr>"] call
  show ?thesis by (simp add: in_flight_def holds_ticket_def)
next
  case (receive i doi ticket tickets)
  from filter_update_count [OF receive(2), of holds_ticket
      "(units s ! i)\<lparr>pc := Holding doi\<rparr>"] receive
  show ?thesis by (simp add: in_flight_def holds_ticket_def)
next
  case (request i doi)
  from filter_update_count [OF request(2), of holds_ticket
      "(units s ! i)\<lparr>pc := Returning (doAPIRequest_call http_get email doi)\<rparr>"] request
  show ?thesis by (simp add: in_flight_def holds_ticket_def)
next
  case (send i r)
  from filter_update_count [OF send(2), of holds_ticket
      "(units s ! i)\<lparr>pc := Outside, responses := responses (units s ! i) @ [r]\<rparr>"] send
  show ?thesis by (simp add: in_flight_def holds_ticket_def)
qed

lemma gate_reachable_conserves:
  "gate_reachable httplimit http_get email publications s \<Longrightarrow>
   length (ticketToHTTP s) + in_flight s = httplimit"
proof (induction rule: gate_reachable.induct)
  case start
  show ?case by (simp add: in_flight_init) (simp add: gate_init_def)
next
  case (step s s')
  with gate_step_conserves [OF step(2)] show ?case by simp
qed

lemma in_flight_positive:
  "i < length (units s) \<Longrightarrow> holds_ticket (units s ! i) \<Longrightarrow> 0 < in_flight s"
  unfolding in_flight_def by (metis filter_empty_conv length_greater_0_conv nth_mem)

lemma all_finished_in_flight: "all_finished s \<Longrightarrow> in_flight s = 0"
  by (auto simp: all_finished_def in_flight_def list_all_iff holds_ticket_def filter_empty_conv)

text \<open>
  C1. In every state that the units of work of one file can reach, the tickets in
  the buffer of \<open>ticketToHTTP\<close> and the lookups holding one add up to \<open>httplimit\<close>:
  so at most \<open>httplimit\<close> lookups hold a ticket, the buffer (a list, whose length is
  the permit count and cannot be negative) never holds more than \<open>httplimit\<close>
  tickets, every ticket is back once all units have finished, and the deferred send
  of a returning call always finds room. A call of \<open>doAPIRequest\<close> that finds a
  ticket returns it on each of its exits: whatever the network does, it returns a
  result and leaves as many tickets as it found.
\<close>

theorem admission_gate_invariant:
  assumes "gate_reachable httplimit http_get email publications s"
  shows "length (ticketToHTTP s) + in_flight s = httplimit
    \<and> in_flight s \<le> httplimit
    \<and> length (ticketToHTTP s) \<le> httplimit
    \<and> (all_finished s \<longrightarrow> length (ticketToHTTP s) = httplimit)
    \<and> (\<forall>i<length (units s). \<forall>r. pc (units s ! i) = Returning r \<longrightarrow>
          length (ticketToHTTP s) < httplimit)
    \<and> (\<forall>get doi tickets. tickets \<noteq> [] \<longrightarrow>
          (\<exists>r tickets'. doAPIRequest get email doi tickets = Some (r, tickets')
             \<and> length tickets' = length tickets))"
proof -
  have c: "length (ticketToHTTP s) + in_flight s = httplimit"
    using assms by (rule gate_reachable_conserves)
  have f: "all_finished s \<longrightarrow> length (ticketToHTTP s) = httplimit"
    using c all_finished_in_flight by fastforce
  have r: "\<forall>i<length (units s). \<forall>r. pc (units s ! i) = Returning r \<longrightarrow>
          length (ticketToHTTP s) < httplimit"
  proof (intro allI impI)
    fix i r assume i: "i < length (units s)" and pc: "pc (units s ! i) = Returning r"
    from pc have "holds_ticket (units s ! i)" by (simp add: holds_ticket_def)
    with i have "0 < in_flight s" by (rule in_flight_positive)
    with c show "length (ticketToHTTP s) < httplimit" by simp
  qed
  have d: "\<forall>get doi tickets. tickets \<noteq> [] \<longrightarrow>
          (\<exists>r tickets'. doAPIRequest get email doi tickets = Some (r, tickets')
             \<and> length tickets' = length tickets)"
    by (auto simp: doAPIRequest_def split: list.splits)
  from c f r d show ?thesis by simp
qed

theorem admission_gate_invariant_witness:
  "gate_reachable 1 (\<lambda>url. GetError ''timeout'') ''a@b.org''
     [\<lparr>Identifier = [\<lparr>Scheme = ''doi'', Value = ''10.1000/182''\<rparr>], ID = ''7'',
       Type = ''article'', Attachment = []\<rparr>,
      \<lparr>Identifier = [\<lparr>Scheme = ''doi'', Value = ''10.1000/183''\<rparr>], ID = ''8'',
       Type = ''article'', Attachment = []\<rparr>]
     \<lparr>ticketToHTTP = [],
      units = [\<lparr>pc = Holding ''10.1000/182'', todo = [], responses = []\<rparr>,
               \<lparr>pc = Outside, todo = [''10.1000/183''], responses = []\<rparr>]\<rparr>
   \<and> in_flight
     \<lparr>ticketToHTTP = [],
      units = [\<lparr>pc = Holding ''10.1000/182'', todo = [], responses = []\<rparr>,
               \<lparr>pc = Outside, todo = [''10.1000/183''], responses = []\<rparr>]\<rparr> = 1"
  (is "gate_reachable 1 ?get ?email ?pubs ?final \<and> _")
proof -
  let ?init = "gate_init 1 ?pubs"
  let ?mid = "\<lparr>ticketToHTTP = [True],
      units = [\<lparr>pc = Waiting ''10.1000/182'', todo = [], responses = []\<rparr>,
               \<lparr>pc = Outside, todo = [''10.1000/183''], responses = []\<rparr>]\<rparr>"
  have r0: "gate_reachable 1 ?get ?email ?pubs ?init" by (rule gate_reachable.start)
  have "gate_step 1 ?get ?email ?init ?mid"
    using gate_step.call [where i = 0 and s = ?init and doi = "''10.1000/182''" and rest = "[]"
        and httplimit = 1 and http_get = ?get and email = ?email]
    by (simp add: gate_init_def doi_values_def)
  with r0 have r1: "gate_reachable 1 ?get ?email ?pubs ?mid" by (rule gate_reachable.step)
  have "gate_step 1 ?get ?email ?mid ?final"
    using gate_step.receive [where i = 0 and s = ?mid and doi = "''10.1000/182''" and ticket = True
        and tickets = "[]" and httplimit = 1 and http_get = ?get and email = ?email]
    by simp
  with r1 have r2: "gate_reachable 1 ?get ?email ?pubs ?final" by (rule gate_reachable.step)
  from admission_gate_invariant [OF r2] have "in_flight ?final = 1" by simp
  with r2 show ?thesis by simp
qed

section \<open>Properties of the hand-off on the output channel\<close>




section \<open>The results of the units of work under interleaving\<close>

text \<open>
  The interleaving changes no result: whatever the order of the steps, each unit of
  work ends with the results that \<open>processPublication\<close> computes for its line, in
  the order of its DOI identifiers.
\<close>

lemma gate_step_results:
  assumes "gate_step httplimit http_get email s s'"
  shows "map (results_in_order http_get email) (units s')
       = map (results_in_order http_get email) (units s)"
  using assms
proof cases
  case (call i doi rest)
  then have "results_in_order http_get email ((units s ! i)\<lparr>pc := Waiting doi, todo := rest\<rparr>)
      = results_in_order http_get email (units s ! i)"
    by (simp add: results_in_order_def)
  with call show ?thesis by (simp add: map_update list_update_same_conv)
next
  case (receive i doi ticket tickets)
  then have "results_in_order http_get email ((units s ! i)\<lparr>pc := Holding doi\<rparr>)
      = results_in_order http_get email (units s ! i)"
    by (simp add: results_in_order_def)
  with receive show ?thesis by (simp add: map_update list_update_same_conv)
next
  case (request i doi)
  then have "results_in_order http_get email
        ((units s ! i)\<lparr>pc := Returning (doAPIRequest_call http_get email doi)\<rparr>)
      = results_in_order http_get email (units s ! i)"
    by (simp add: results_in_order_def)
  with request show ?thesis by (simp add: map_update list_update_same_conv)
next
  case (send i r)
  then have "results_in_order http_get email
        ((units s ! i)\<lparr>pc := Outside, responses := responses (units s ! i) @ [r]\<rparr>)
      = results_in_order http_get email (units s ! i)"
    by (simp add: results_in_order_def)
  with send show ?thesis by (simp add: map_update list_update_same_conv)
qed

lemma gate_reachable_results:
  "gate_reachable httplimit http_get email publications s \<Longrightarrow>
   map (results_in_order http_get email) (units s)
     = map (\<lambda>publication. identifier_loop http_get email (Identifier publication) []) publications"
proof (induction rule: gate_reachable.induct)
  case start
  show ?case
    by (simp add: gate_init_def results_in_order_def identifier_loop_map doi_values_def comp_def)
next
  case (step s s')
  with gate_step_results [OF step(2)] show ?case by simp
qed

lemma finished_unit_results:
  assumes "gate_reachable httplimit http_get email publications s"
    and "i < length (units s)" and "pc (units s ! i) = Outside" and "todo (units s ! i) = []"
  shows "i < length publications
    \<and> responses (units s ! i) = identifier_loop http_get email (Identifier (publications ! i)) []"
proof -
  from gate_reachable_results [OF assms(1)]
  have m: "map (results_in_order http_get email) (units s)
     = map (\<lambda>publication. identifier_loop http_get email (Identifier publication) []) publications" .
  then have l: "length (units s) = length publications" by (metis length_map)
  with assms(2) have i: "i < length publications" by simp
  from m assms(2) i have "results_in_order http_get email (units s ! i)
      = identifier_loop http_get email (Identifier (publications ! i)) []"
    by (metis nth_map)
  with assms(3,4) i show ?thesis by (simp add: results_in_order_def)
qed

end
